theory Spec2Isabelle
  imports Main
begin

section \<open>BaileysMessageProcessor: an embedding of the RxJS pipeline\<close>

text \<open>
  The class \<^verbatim>\<open>BaileysMessageProcessor\<close> (baileysMessage.processor.ts) owns one RxJS
  \<^verbatim>\<open>Subject\<close>, \<^verbatim>\<open>messageSubject\<close>, and three methods: \<^verbatim>\<open>mount\<close> subscribes the operator
  chain \<^verbatim>\<open>bufferTime | filter | tap | mergeMap(from(batch) | mergeMap(..., maxConcurrency)) |
  catchError\<close> to the subject, \<^verbatim>\<open>processMessage\<close> calls \<^verbatim>\<open>messageSubject.next\<close>, and
  \<^verbatim>\<open>onDestroy\<close> unsubscribes and completes the subject.

  The operators are library code (RxJS 7); each is modelled by the state it keeps and by
  its reaction to the notifications it receives. Time is counted in whole milliseconds
  since the processor was created.
\<close>

subsection \<open>Configuration: the destructured argument of mount\<close>

text \<open>
  \<^verbatim>\<open>mount({ onMessageReceive, maxConcurrency = 5, timeoutMs = 30000, batchTimeoutMs = 1000 })\<close>.
  The argument is a JavaScript object: a finite map from property names to numbers. A
  default applies when the property is absent (\<^verbatim>\<open>undefined\<close>). Properties the pattern does
  not name are never read. Numbers are modelled as natural numbers.
\<close>

type_synonym props = "string \<rightharpoonup> nat"

record config =
  maxConcurrency :: nat
  timeoutMs :: nat
  batchTimeoutMs :: nat

definition orDefault :: "nat option \<Rightarrow> nat \<Rightarrow> nat" where
  "orDefault v d = (case v of None \<Rightarrow> d | Some n \<Rightarrow> n)"

definition mountConfig :: "props \<Rightarrow> config" where
  "mountConfig p =
     \<lparr> maxConcurrency = orDefault (p ''maxConcurrency'') 5,
       timeoutMs = orDefault (p ''timeoutMs'') 30000,
       batchTimeoutMs = orDefault (p ''batchTimeoutMs'') 1000 \<rparr>"

text \<open>The two literals of the retry notifier, lines 66 and 67: \<^verbatim>\<open>delay(1000)\<close>, \<^verbatim>\<open>take(3)\<close>.\<close>

definition retryDelay :: nat where
  "retryDelay = 1000"

definition retryTake :: nat where
  "retryTake = 3"

text \<open>
  Every timer of the chain (bufferTime, timeout, delay) is an RxJS \<^verbatim>\<open>AsyncAction\<close>, which
  calls \<^verbatim>\<open>setInterval(work, delay)\<close>; Node.js sets a delay below 1 ms or above
  2147483647 ms to 1 ms.
\<close>

definition timerMs :: "nat \<Rightarrow> nat" where
  "timerMs d = (if d < 1 \<or> 2147483647 < d then 1 else d)"

subsection \<open>Payloads and message groups\<close>

text \<open>
  \<^verbatim>\<open>MessageUpsertPayload = { messages, type, requestId? }\<close>; the subject carries
  \<^verbatim>\<open>{ messages, type, requestId, settings }\<close>, that is the payload together with the
  settings: a pair. The message type \<open>'m\<close> and the settings type \<open>'s\<close> are opaque.
\<close>

datatype upsert_type = Notify | Append

record 'm payload =
  messages :: "'m list"
  upsertType :: upsert_type
  requestId :: "string option"

type_synonym ('m, 's) group = "'m payload \<times> 's"

subsection \<open>The subject, bufferTime and filter: the processor's state\<close>

text \<open>
  One live subscription of the chain keeps, up to the executor, the open buffer of
  \<^verbatim>\<open>bufferTime\<close> and the configuration it was mounted with. The processor keeps the
  subject's \<^verbatim>\<open>isStopped\<close> and \<^verbatim>\<open>closed\<close> flags, the subject's observers (the live
  subscriptions, each with an identifier), the field \<^verbatim>\<open>this.subscription\<close>, and the next
  unused identifier. No method of the class calls \<^verbatim>\<open>messageSubject.unsubscribe()\<close>, the only
  operation that sets \<^verbatim>\<open>closed\<close>.
\<close>

record 'g pipeline =
  pipeConfig :: config
  bufferRecord :: "'g list"

record 'g processor =
  isStopped :: bool
  closed :: bool
  observers :: "(nat \<times> 'g pipeline) list"
  subscription :: "nat option"
  fresh :: nat

datatype error = ObjectUnsubscribedError

type_synonym 'g emissions = "(nat \<times> 'g list) list"

type_synonym 'g reaction = "(error + unit) \<times> 'g processor \<times> 'g emissions"

definition initProcessor :: "'g processor" where
  "initProcessor =
     \<lparr> isStopped = False, closed = False, observers = [], subscription = None, fresh = 0 \<rparr>"

text \<open>\<^verbatim>\<open>filter(batch => batch.length > 0)\<close>, applied to what bufferTime emits for subscription \<open>i\<close>.\<close>

definition filterNonEmpty :: "nat \<Rightarrow> 'g list \<Rightarrow> 'g emissions" where
  "filterNonEmpty i batch = (if length batch > 0 then [(i, batch)] else [])"

text \<open>bufferTime on a value: the value is pushed on the open buffer.\<close>

definition bufferNext :: "'g \<Rightarrow> nat \<times> 'g pipeline \<Rightarrow> nat \<times> 'g pipeline" where
  "bufferNext g ob = (fst ob, (snd ob)\<lparr>bufferRecord := bufferRecord (snd ob) @ [g]\<rparr>)"

text \<open>
  \<^verbatim>\<open>Subject.next\<close>: throws when the subject is closed, does nothing when it is stopped,
  otherwise hands the value to every observer.
\<close>

definition subjectNext :: "'g \<Rightarrow> 'g processor \<Rightarrow> 'g reaction" where
  "subjectNext g st =
     (if closed st then (Inl ObjectUnsubscribedError, st, [])
      else if isStopped st then (Inr (), st, [])
      else (Inr (), st\<lparr>observers := map (bufferNext g) (observers st)\<rparr>, []))"

text \<open>\<^verbatim>\<open>processMessage(payload, settings)\<close>, lines 103 to 106.\<close>

definition processMessage :: "'m payload \<Rightarrow> 's \<Rightarrow> ('m, 's) group processor \<Rightarrow> ('m, 's) group reaction" where
  "processMessage p s st = subjectNext (p, s) st"

text \<open>
  \<^verbatim>\<open>mount\<close>, lines 41 to 101: subscribing to a closed subject throws; subscribing to a
  stopped subject completes the new chain at once (bufferTime emits its empty first
  buffer, which filter drops); otherwise the chain becomes an observer with an empty
  buffer. \<^verbatim>\<open>this.subscription\<close> is overwritten in both cases.
\<close>

definition mount :: "props \<Rightarrow> 'g processor \<Rightarrow> 'g reaction" where
  "mount p st =
     (if closed st then (Inl ObjectUnsubscribedError, st, [])
      else if isStopped st then
        (Inr (), st\<lparr>subscription := Some (fresh st), fresh := Suc (fresh st)\<rparr>,
         filterNonEmpty (fresh st) [])
      else
        (Inr (),
         st\<lparr>observers := observers st @ [(fresh st, \<lparr>pipeConfig = mountConfig p, bufferRecord = []\<rparr>)],
            subscription := Some (fresh st), fresh := Suc (fresh st)\<rparr>,
         []))"

text \<open>
  The timer of subscription \<open>i\<close>'s bufferTime fires: the open buffer is emitted (also when
  it is empty) and a new one is opened; filter decides what reaches mergeMap. A timer of
  a subscription that is no longer an observer has been cancelled.
\<close>

definition timerOf :: "nat \<Rightarrow> nat \<times> 'g pipeline \<Rightarrow> nat \<times> 'g pipeline" where
  "timerOf i ob = (if fst ob = i then (fst ob, (snd ob)\<lparr>bufferRecord := []\<rparr>) else ob)"

definition flushOf :: "nat \<times> 'g pipeline \<Rightarrow> 'g emissions" where
  "flushOf ob = filterNonEmpty (fst ob) (bufferRecord (snd ob))"

definition bufferTimer :: "nat \<Rightarrow> 'g processor \<Rightarrow> 'g reaction" where
  "bufferTimer i st =
     (Inr (), st\<lparr>observers := map (timerOf i) (observers st)\<rparr>,
      concat (map flushOf (filter (\<lambda>ob. fst ob = i) (observers st))))"

text \<open>\<^verbatim>\<open>Subscription.unsubscribe\<close>: the chain leaves the observers; its buffer is dropped.\<close>

definition unsubscribe :: "nat \<Rightarrow> 'g processor \<Rightarrow> 'g processor" where
  "unsubscribe i st = st\<lparr>observers := filter (\<lambda>ob. fst ob \<noteq> i) (observers st)\<rparr>"

text \<open>
  An error notification reaches the outer \<^verbatim>\<open>catchError\<close> of subscription \<open>i\<close>, lines 85 to
  88: the handler logs and returns \<^verbatim>\<open>EMPTY\<close>, so the chain completes; its source
  subscription has been torn down by the error.
\<close>

definition streamError :: "nat \<Rightarrow> 'g processor \<Rightarrow> 'g reaction" where
  "streamError i st = (Inr (), unsubscribe i st, [])"

text \<open>
  \<^verbatim>\<open>Subject.complete\<close>: throws when closed, does nothing when stopped; otherwise the subject
  stops and every observer receives \<^verbatim>\<open>complete\<close>, on which bufferTime emits its open
  buffer before completing.
\<close>

definition subjectComplete :: "'g processor \<Rightarrow> 'g reaction" where
  "subjectComplete st =
     (if closed st then (Inl ObjectUnsubscribedError, st, [])
      else if isStopped st then (Inr (), st, [])
      else (Inr (), st\<lparr>isStopped := True, observers := []\<rparr>, concat (map flushOf (observers st))))"

text \<open>\<^verbatim>\<open>onDestroy\<close>, lines 108 to 112: \<^verbatim>\<open>this.subscription?.unsubscribe()\<close>, then \<^verbatim>\<open>messageSubject.complete()\<close>.\<close>

definition onDestroy :: "'g processor \<Rightarrow> 'g reaction" where
  "onDestroy st =
     subjectComplete (case subscription st of None \<Rightarrow> st | Some i \<Rightarrow> unsubscribe i st)"

text \<open>What can happen to a processor, in the order the event loop runs it.\<close>

datatype ('m, 's) event =
    Mount props
  | ProcessMessage "'m payload" 's
  | OnDestroy
  | BufferTimer nat
  | StreamError nat

fun step :: "('m, 's) event \<Rightarrow> ('m, 's) group processor \<Rightarrow> ('m, 's) group reaction" where
  "step (Mount p) st = mount p st"
| "step (ProcessMessage p s) st = processMessage p s st"
| "step OnDestroy st = onDestroy st"
| "step (BufferTimer i) st = bufferTimer i st"
| "step (StreamError i) st = streamError i st"

fun emitted :: "('m, 's) group processor \<Rightarrow> ('m, 's) event list \<Rightarrow> ('m, 's) group emissions" where
  "emitted st [] = []"
| "emitted st (e # es) = (case step e st of (r, st', out) \<Rightarrow> out @ emitted st' es)"

fun isMount :: "('m, 's) event \<Rightarrow> bool" where
  "isMount (Mount p) = True"
| "isMount e = False"

subsection \<open>One task: the handler's promise, timeout and retryWhen\<close>

text \<open>
  The handler \<^verbatim>\<open>onMessageReceive\<close> is declared to return \<^verbatim>\<open>Promise<void>\<close>. A call of it
  either returns a promise or throws before it returns one (a handler that is not an
  \<^verbatim>\<open>async\<close> function can; a handler that returns a value that \<^verbatim>\<open>from\<close> does not accept has
  the same effect, since \<^verbatim>\<open>from\<close> throws inside the project function). What the chain can
  observe of a promise is its fate: it resolves some milliseconds after the call, it
  rejects with a reason, it rejects with the reason \<^verbatim>\<open>null\<close> or \<^verbatim>\<open>undefined\<close> (of which
  \<^verbatim>\<open>error.message\<close> cannot be read), or it never settles. A handler is modelled as a
  function from the group to what the call does.
\<close>

datatype promise = Resolves nat | Rejects nat | RejectsNull nat | NeverSettles

datatype handler_call = Returns promise | Throws

datatype failure = HandlerError | TimeoutError

text \<open>
  How one subscription to the source ends: the promise's value is delivered, or an error
  whose message can be read, or the reason \<^verbatim>\<open>null\<close> or \<^verbatim>\<open>undefined\<close>.
\<close>

datatype ending = Delivered | Failed failure | FailedNull

text \<open>
  What one task does, with the time of each step: the handler is called; the chain
  subscribes to \<^verbatim>\<open>from(promise)\<close>; \<^verbatim>\<open>tap\<close> logs the warning "Retrying message batch due to
  error"; the promise's value is emitted; the inner \<^verbatim>\<open>catchError\<close> logs the error "Error
  processing individual message batch"; \<^verbatim>\<open>of(null)\<close> is emitted; \<^verbatim>\<open>finalize\<close> logs the
  error "Failed to process message batch after 3 retries"; the inner observable
  completes, which frees the slot of the inner mergeMap. Of the steps of one
  millisecond the completion is listed last.
\<close>

datatype task_event =
    HandlerInvoked
  | Subscribed
  | RetryWarned failure
  | ValueEmitted
  | ErrorLogged
  | NullEmitted
  | FailureLogged
  | TaskCompleted

type_synonym trace = "(nat \<times> task_event) list"

text \<open>Whether a promise created at time \<open>s\<close> has settled at time \<open>t\<close>.\<close>

fun settledBy :: "promise \<Rightarrow> nat \<Rightarrow> nat \<Rightarrow> bool" where
  "settledBy (Resolves d) s t = (s + d \<le> t)"
| "settledBy (Rejects d) s t = (s + d \<le> t)"
| "settledBy (RejectsNull d) s t = (s + d \<le> t)"
| "settledBy NeverSettles s t = False"

text \<open>
  One subscription, at time \<open>a\<close>, to \<^verbatim>\<open>from(promise).pipe(timeout(timeoutMs))\<close>, line 59 to
  61; the promise was created at time \<open>s\<close>. \<^verbatim>\<open>from\<close> attaches callbacks to the same promise:
  a promise that has settled already delivers at once. The timer of \<^verbatim>\<open>timeout\<close> starts at
  the subscription; a promise that settles no later than the deadline is delivered, any
  other yields a \<^verbatim>\<open>TimeoutError\<close> at the deadline. The result is the time the subscription
  ends and how it ends.
\<close>

definition attempt :: "nat \<Rightarrow> nat \<Rightarrow> promise \<Rightarrow> nat \<Rightarrow> nat \<times> ending" where
  "attempt tmo s pr a =
     (let deadline = a + timerMs tmo in
      case pr of
        Resolves d \<Rightarrow>
          if s + d \<le> deadline then (max a (s + d), Delivered)
          else (deadline, Failed TimeoutError)
      | Rejects d \<Rightarrow>
          if s + d \<le> deadline then (max a (s + d), Failed HandlerError)
          else (deadline, Failed TimeoutError)
      | RejectsNull d \<Rightarrow>
          if s + d \<le> deadline then (max a (s + d), FailedNull)
          else (deadline, Failed TimeoutError)
      | NeverSettles \<Rightarrow> (deadline, Failed TimeoutError))"

text \<open>
  \<^verbatim>\<open>retryWhen\<close>, lines 63 to 73. \<open>subscribeForRetryWhen\<close> subscribes to the source; a value
  completes the task (and tears the notifier down, which runs \<^verbatim>\<open>finalize\<close> when an error
  has created it); an error is pushed into the notifier \<^verbatim>\<open>tap | delay(1000) | take(3) |
  finalize\<close>. \<open>notifier\<close> is that chain from \<^verbatim>\<open>delay\<close> on, for an error pushed at time \<open>e\<close>
  when \<^verbatim>\<open>take\<close> has let \<open>seen\<close> errors through: after the delay \<^verbatim>\<open>take\<close> counts the error
  (\<^verbatim>\<open>++seen <= count\<close>) and passes it on, on which retryWhen subscribes to the source
  again, and when the count is reached (\<^verbatim>\<open>count <= seen\<close>) it completes, which runs
  \<^verbatim>\<open>finalize\<close> and completes the task. The source is \<^verbatim>\<open>from(promise)\<close> for the promise made
  when the task started: subscribing again does not call the handler.

  The callback of \<^verbatim>\<open>tap\<close>, line 65, reads \<^verbatim>\<open>error.message\<close>. For the reason \<^verbatim>\<open>null\<close> or
  \<^verbatim>\<open>undefined\<close> that read throws before anything is logged: the notifier fails, so
  retryWhen's output fails, and the inner \<^verbatim>\<open>catchError\<close>, lines 75 to 78, logs its error,
  unsubscribes from its source (the teardown of the notifier runs \<^verbatim>\<open>finalize\<close>) and
  continues with \<^verbatim>\<open>of(null)\<close>; the task completes at once, with no retry. No other
  error reaches the inner \<^verbatim>\<open>catchError\<close>.
\<close>

function subscribeForRetryWhen :: "config \<Rightarrow> nat \<Rightarrow> promise \<Rightarrow> nat \<Rightarrow> nat \<Rightarrow> trace"
  and notifier :: "config \<Rightarrow> nat \<Rightarrow> promise \<Rightarrow> nat \<Rightarrow> nat \<Rightarrow> trace" where
  "subscribeForRetryWhen cfg s pr seen a =
     (a, Subscribed) #
     (case attempt (timeoutMs cfg) s pr a of
        (t, Delivered) \<Rightarrow>
          (t, ValueEmitted) # (if 0 < seen then [(t, FailureLogged)] else []) @ [(t, TaskCompleted)]
      | (t, Failed f) \<Rightarrow> (t, RetryWarned f) # notifier cfg s pr seen t
      | (t, FailedNull) \<Rightarrow>
          [(t, ErrorLogged), (t, FailureLogged), (t, NullEmitted), (t, TaskCompleted)])"
| "notifier cfg s pr seen e =
     (let t = e + timerMs retryDelay in
      if Suc seen \<le> retryTake then
        (if retryTake \<le> Suc seen then [(t, Subscribed), (t, FailureLogged), (t, TaskCompleted)]
         else subscribeForRetryWhen cfg s pr (Suc seen) t)
      else [])"
  by pat_completeness auto
termination
  by (relation "measure (\<lambda>x. case x of
         Inl (cfg, s, pr, seen, a) \<Rightarrow> 2 * (retryTake - seen) + 1
       | Inr (cfg, s, pr, seen, e) \<Rightarrow> 2 * (retryTake - seen))") auto

declare subscribeForRetryWhen.simps [simp del]

declare notifier.simps [simp del]

text \<open>
  The project function of the inner mergeMap, lines 58 to 79, called at time \<open>s\<close>. It
  calls the handler first: \<^verbatim>\<open>from(onMessageReceive(...))\<close> evaluates the call before any
  operator of lines 60 to 78 exists. When the call throws, the project function throws
  (\<open>None\<close>), outside the inner \<^verbatim>\<open>catchError\<close>; otherwise the chain built on the returned
  promise is subscribed and the task has the trace given.
\<close>

definition project :: "config \<Rightarrow> ('g \<Rightarrow> handler_call) \<Rightarrow> nat \<Rightarrow> 'g \<Rightarrow> trace option" where
  "project cfg h s g =
     (case h g of
        Throws \<Rightarrow> None
      | Returns pr \<Rightarrow> Some ((s, HandlerInvoked) # subscribeForRetryWhen cfg s pr 0 s))"

subsection \<open>The inner mergeMap: one batch under maxConcurrency\<close>

text \<open>
  \<^verbatim>\<open>from(batch).pipe(mergeMap(project, maxConcurrency))\<close>, lines 57 to 81. RxJS's
  \<^verbatim>\<open>mergeInternals\<close> keeps the inner subscriptions that are \<^verbatim>\<open>active\<close>, a \<^verbatim>\<open>buffer\<close> of values
  that wait, and the \<^verbatim>\<open>index\<close> of the next value. The outer mergeMap, line 56, has no
  concurrency argument: it subscribes to every batch's observable when the batch is
  emitted, and each such observable has a state of its own.

  An error thrown by the project function is caught by mergeMap and sent downstream as
  the error of the stream; it passes the outer mergeMap and reaches the outer
  \<^verbatim>\<open>catchError\<close>, lines 85 to 88, which ends the chain. The state records the time of such
  an error; the tasks that were active then are abandoned (their subscriptions are torn
  down; the handler calls themselves go on), and the groups still in the buffer are
  never started.
\<close>

record 'g task =
  taskIndex :: nat
  taskGroup :: 'g
  started :: nat
  taskTrace :: trace

definition finished :: "'g task \<Rightarrow> nat" where
  "finished x = fst (last (taskTrace x))"

record 'g merge =
  active :: "'g task list"
  mergeBuffer :: "'g list"
  mergeIndex :: nat
  completed :: "'g task list"
  abandoned :: "'g task list"
  errored :: "nat option"

definition initMerge :: "'g merge" where
  "initMerge =
     \<lparr> active = [], mergeBuffer = [], mergeIndex = 0, completed = [], abandoned = [],
       errored = None \<rparr>"

text \<open>
  A task torn down at time \<open>te\<close>: of its trace the call of the handler and the first
  subscription have happened, and of the rest what lies before \<open>te\<close>; when a warning has
  been logged the notifier exists, and its teardown runs \<^verbatim>\<open>finalize\<close>.
\<close>

fun isWarning :: "task_event \<Rightarrow> bool" where
  "isWarning (RetryWarned f) = True"
| "isWarning e = False"

definition cutTrace :: "nat \<Rightarrow> trace \<Rightarrow> trace" where
  "cutTrace te tr =
     (let kept = take 2 tr @ filter (\<lambda>ev. fst ev < te) (drop 2 tr) in
      kept @ (if list_ex (\<lambda>ev. isWarning (snd ev)) kept then [(te, FailureLogged)] else []))"

definition abandon :: "nat \<Rightarrow> 'g task \<Rightarrow> 'g task" where
  "abandon te x = x\<lparr>taskTrace := cutTrace te (taskTrace x)\<rparr>"

text \<open>
  \<^verbatim>\<open>doInnerSub\<close>: \<^verbatim>\<open>active++\<close>, then \<^verbatim>\<open>project(value, index++)\<close> is called and its result
  subscribed. When the project function throws, the stream fails at that time.
\<close>

definition doInnerSub :: "config \<Rightarrow> ('g \<Rightarrow> handler_call) \<Rightarrow> nat \<Rightarrow> 'g \<Rightarrow> 'g merge \<Rightarrow> 'g merge" where
  "doInnerSub cfg h now g st =
     (case project cfg h now g of
        Some tr \<Rightarrow>
          st\<lparr> active := active st @
                 [\<lparr> taskIndex = mergeIndex st, taskGroup = g, started = now, taskTrace = tr \<rparr>],
              mergeIndex := Suc (mergeIndex st) \<rparr>
      | None \<Rightarrow>
          st\<lparr> active := [],
              abandoned := abandoned st @ map (abandon now) (active st),
              mergeIndex := Suc (mergeIndex st),
              errored := Some now \<rparr>)"

text \<open>
  \<^verbatim>\<open>outerNext\<close>: \<^verbatim>\<open>active < concurrent ? doInnerSub(value) : buffer.push(value)\<close>. After an
  error the subscriber is closed and \<^verbatim>\<open>from(batch)\<close> hands it nothing more.
\<close>

definition outerNext :: "config \<Rightarrow> ('g \<Rightarrow> handler_call) \<Rightarrow> nat \<Rightarrow> 'g merge \<Rightarrow> 'g \<Rightarrow> 'g merge" where
  "outerNext cfg h now st g =
     (if errored st \<noteq> None then st
      else if length (active st) < maxConcurrency cfg then doInnerSub cfg h now g st
      else st\<lparr>mergeBuffer := mergeBuffer st @ [g]\<rparr>)"

text \<open>
  The loop of the inner finalizer:
  \<^verbatim>\<open>while (buffer.length && active < concurrent) doInnerSub(buffer.shift())\<close>; an error
  thrown in it leaves the loop.
\<close>

function whileBuffered :: "config \<Rightarrow> ('g \<Rightarrow> handler_call) \<Rightarrow> nat \<Rightarrow> 'g merge \<Rightarrow> 'g merge" where
  "whileBuffered cfg h now st =
     (case mergeBuffer st of
        [] \<Rightarrow> st
      | g # gs \<Rightarrow>
          if errored st = None \<and> length (active st) < maxConcurrency cfg
          then whileBuffered cfg h now (doInnerSub cfg h now g (st\<lparr>mergeBuffer := gs\<rparr>))
          else st)"
  by pat_completeness auto
termination
  by (relation "measure (\<lambda>(cfg, h, now, st). length (mergeBuffer st))")
     (auto simp: doInnerSub_def split: option.splits)

declare whileBuffered.simps [simp del]

text \<open>The active task that completes next: the first of those that finish earliest.\<close>

fun earliest :: "'g task \<Rightarrow> 'g task list \<Rightarrow> 'g task" where
  "earliest x [] = x"
| "earliest x (y # ys) = earliest (if finished y < finished x then y else x) ys"

text \<open>
  An inner observable completes at time \<open>finished tk\<close>: \<^verbatim>\<open>active--\<close>, then the loop above.
\<close>

definition innerComplete :: "config \<Rightarrow> ('g \<Rightarrow> handler_call) \<Rightarrow> 'g task \<Rightarrow> 'g merge \<Rightarrow> 'g merge" where
  "innerComplete cfg h tk st =
     whileBuffered cfg h (finished tk)
       (st\<lparr>active := remove1 tk (active st), completed := completed st @ [tk]\<rparr>)"

lemma earliest_in: "earliest x xs \<in> set (x # xs)"
  by (induction xs arbitrary: x) auto

lemma whileBuffered_size:
  "length (active (whileBuffered cfg h now st)) + length (mergeBuffer (whileBuffered cfg h now st))
   \<le> length (active st) + length (mergeBuffer st)"
proof (induction cfg h now st rule: whileBuffered.induct)
  case (1 cfg h now st)
  show ?case
  proof (cases "mergeBuffer st")
    case Nil
    then show ?thesis by (simp add: whileBuffered.simps [of cfg h now st])
  next
    case (Cons g gs)
    show ?thesis
    proof (cases "errored st = None \<and> length (active st) < maxConcurrency cfg")
      case True
      have unf: "whileBuffered cfg h now st
          = whileBuffered cfg h now (doInnerSub cfg h now g (st\<lparr>mergeBuffer := gs\<rparr>))"
        by (subst whileBuffered.simps) (simp add: Cons True)
      have "length (active (doInnerSub cfg h now g (st\<lparr>mergeBuffer := gs\<rparr>)))
            + length (mergeBuffer (doInnerSub cfg h now g (st\<lparr>mergeBuffer := gs\<rparr>)))
          \<le> length (active st) + length (mergeBuffer st)"
        using Cons by (simp add: doInnerSub_def split: option.splits)
      with "1.IH" [OF Cons True] show ?thesis
        unfolding unf by simp
    next
      case False
      have "whileBuffered cfg h now st = st"
        by (subst whileBuffered.simps) (simp only: Cons list.case False if_False)
      then show ?thesis by simp
    qed
  qed
qed

text \<open>
  The event loop on one batch: as long as a task is active, the one that finishes first
  completes. Every task ends (its trace is finite), so the loop ends when no task is
  active; after an error of the stream no task is.
\<close>

function drain :: "config \<Rightarrow> ('g \<Rightarrow> handler_call) \<Rightarrow> 'g merge \<Rightarrow> 'g merge" where
  "drain cfg h st =
     (case active st of
        [] \<Rightarrow> st
      | x # xs \<Rightarrow> drain cfg h (innerComplete cfg h (earliest x xs) st))"
  by pat_completeness auto
termination
proof (relation "measure (\<lambda>(cfg, h, st). length (active st) + length (mergeBuffer st))")
  show "wf (measure (\<lambda>(cfg, h, st). length (active st) + length (mergeBuffer st)))"
    by simp
next
  fix cfg :: config and h :: "'g \<Rightarrow> handler_call" and st :: "'g merge" and x xs
  assume a: "active st = x # xs"
  let ?nx = "st\<lparr>active := remove1 (earliest x xs) (active st),
                completed := completed st @ [earliest x xs]\<rparr>"
  have "earliest x xs \<in> set (active st)"
    using earliest_in [of x xs] a by simp
  moreover have "0 < length (active st)"
    using a by simp
  ultimately have "length (remove1 (earliest x xs) (active st)) < length (active st)"
    by (simp add: length_remove1)
  then have "length (active ?nx) + length (mergeBuffer ?nx)
      < length (active st) + length (mergeBuffer st)" by simp
  with whileBuffered_size [of cfg h "finished (earliest x xs)" ?nx]
  show "((cfg, h, innerComplete cfg h (earliest x xs) st), (cfg, h, st))
        \<in> measure (\<lambda>(cfg, h, st). length (active st) + length (mergeBuffer st))"
    by (simp add: innerComplete_def)
qed

declare drain.simps [simp del]

text \<open>
  A batch emitted at time \<open>t0\<close>: \<^verbatim>\<open>from(batch)\<close> hands its groups to \<^verbatim>\<open>outerNext\<close> one after
  the other at that time, then the event loop runs. \<open>runMerge\<close> is the state at the end;
  \<open>runBatch\<close> lists the tasks that completed, in the order they did.
\<close>

definition runMerge :: "config \<Rightarrow> ('g \<Rightarrow> handler_call) \<Rightarrow> nat \<Rightarrow> 'g list \<Rightarrow> 'g merge" where
  "runMerge cfg h t0 batch = drain cfg h (foldl (outerNext cfg h t0) initMerge batch)"

definition runBatch :: "config \<Rightarrow> ('g \<Rightarrow> handler_call) \<Rightarrow> nat \<Rightarrow> 'g list \<Rightarrow> 'g task list" where
  "runBatch cfg h t0 batch = completed (runMerge cfg h t0 batch)"

text \<open>
  The tasks whose handler call is still running at time \<open>t\<close>: the call was made and its
  promise has not settled.
\<close>

fun callEnded :: "handler_call \<Rightarrow> nat \<Rightarrow> nat \<Rightarrow> bool" where
  "callEnded (Returns pr) s t = settledBy pr s t"
| "callEnded Throws s t = True"

definition executing :: "('g \<Rightarrow> handler_call) \<Rightarrow> 'g task list \<Rightarrow> nat \<Rightarrow> nat" where
  "executing h xs t =
     length (filter (\<lambda>x. started x \<le> t \<and> \<not> callEnded (h (taskGroup x)) (started x) t) xs)"

definition invocations :: "trace \<Rightarrow> nat" where
  "invocations tr = length (filter (\<lambda>ev. snd ev = HandlerInvoked) tr)"

subsection \<open>The mounted processor in time\<close>

text \<open>
  A processor on which \<^verbatim>\<open>mount\<close> is called once, at time 0, and \<^verbatim>\<open>processMessage\<close> at the
  given times afterwards (in the order of the list). bufferTime opens its first buffer at
  the subscription and each next one when the previous is emitted, a window later:
  \<open>tick\<close> is the time its timer fires next. A call at the very millisecond of a timer is
  taken to run after the timer. The run ends with the timer that follows the last call.
  The result pairs each batch that reaches mergeMap with the time it does.
\<close>

type_synonym ('m, 's) calls = "(nat \<times> 'm payload \<times> 's) list"

definition stamp :: "nat \<Rightarrow> 'g emissions \<Rightarrow> (nat \<times> 'g list) list" where
  "stamp t out = map (\<lambda>e. (t, snd e)) out"

function runWindows ::
  "nat \<Rightarrow> nat \<Rightarrow> nat \<Rightarrow> ('m, 's) group processor \<Rightarrow> ('m, 's) calls \<Rightarrow> (nat \<times> ('m, 's) group list) list" where
  "runWindows T i tick st [] = stamp tick (snd (snd (bufferTimer i st)))"
| "runWindows T i tick st ((t, p, s) # calls) =
     (if t < tick then runWindows T i tick (fst (snd (processMessage p s st))) calls
      else stamp tick (snd (snd (bufferTimer i st))) @
           runWindows T i (tick + timerMs T) (fst (snd (bufferTimer i st))) ((t, p, s) # calls))"
  by pat_completeness auto
termination
  by (relation "measures [\<lambda>(T, i, tick, st, calls). length calls,
        \<lambda>(T, i, tick, st, calls). case calls of [] \<Rightarrow> 0 | c # cs \<Rightarrow> Suc (fst c) - tick]")
     (auto simp: timerMs_def)

declare runWindows.simps [simp del]

definition batchesOf :: "props \<Rightarrow> ('m, 's) calls \<Rightarrow> (nat \<times> ('m, 's) group list) list" where
  "batchesOf p calls =
     runWindows (batchTimeoutMs (mountConfig p)) (fresh (initProcessor :: ('m, 's) group processor))
       (timerMs (batchTimeoutMs (mountConfig p)))
       (fst (snd (mount p initProcessor))) calls"

text \<open>
  Every batch goes to the outer mergeMap, which runs it at once; the handler receives
  the payload and the settings of each group. \<open>pipelineTasks\<close> is the run of a processor
  whose handler always returns its promise (an \<^verbatim>\<open>async\<close> function): no call throws, so no
  batch ends the chain and every batch runs to its end.
\<close>

definition handlerOf :: "('m payload \<Rightarrow> 's \<Rightarrow> promise) \<Rightarrow> ('m, 's) group \<Rightarrow> handler_call" where
  "handlerOf onMessageReceive g = Returns (onMessageReceive (fst g) (snd g))"

definition pipelineTasks ::
  "props \<Rightarrow> ('m payload \<Rightarrow> 's \<Rightarrow> promise) \<Rightarrow> ('m, 's) calls \<Rightarrow> ('m, 's) group task list" where
  "pipelineTasks p onMessageReceive calls =
     concat (map (\<lambda>b. runBatch (mountConfig p) (handlerOf onMessageReceive) (fst b) (snd b))
                 (batchesOf p calls))"

subsection \<open>Histories and example states\<close>

text \<open>The state of a processor after a history of events.\<close>

fun run :: "('m, 's) group processor \<Rightarrow> ('m, 's) event list \<Rightarrow> ('m, 's) group processor" where
  "run st [] = st"
| "run st (e # es) = run (fst (snd (step e st))) es"

text \<open>
  A payload with one message; a processor mounted with the defaults that holds one
  submitted group in its buffer; the same processor after \<^verbatim>\<open>onDestroy\<close>.
\<close>

definition examplePayload :: "nat \<Rightarrow> nat payload" where
  "examplePayload n = \<lparr> messages = [n], upsertType = Notify, requestId = None \<rparr>"

definition exampleMounted :: "(nat, unit) group processor" where
  "exampleMounted =
     fst (snd (processMessage (examplePayload 1) ()
       (fst (snd (mount Map.empty initProcessor)))))"

definition exampleDestroyed :: "(nat, unit) group processor" where
  "exampleDestroyed = fst (snd (onDestroy exampleMounted))"

subsection \<open>Gaps between calls\<close>

text \<open>
  For a list of call times in order: whether some call comes more than \<open>T\<close> after the
  call before it, and whether every call comes less than \<open>T\<close> after the call before it.
\<close>

fun hasGap :: "nat \<Rightarrow> nat list \<Rightarrow> bool" where
  "hasGap T (a # b # ts) = (a + T < b \<or> hasGap T (b # ts))"
| "hasGap T ts = False"

fun gapsBelow :: "nat \<Rightarrow> nat list \<Rightarrow> bool" where
  "gapsBelow T (a # b # ts) = (b < a + T \<and> gapsBelow T (b # ts))"
| "gapsBelow T ts = True"

text \<open>A processor whose only observer is subscription \<open>i\<close>, with the given open buffer.\<close>

definition single :: "nat \<Rightarrow> config \<Rightarrow> 'g list \<Rightarrow> 'g processor" where
  "single i c buf =
     \<lparr> isStopped = False, closed = False,
       observers = [(i, \<lparr>pipeConfig = c, bufferRecord = buf\<rparr>)],
       subscription = Some i, fresh = Suc i \<rparr>"

section \<open>Properties of the configuration and of the life cycle\<close>

subsection \<open>The configuration surface\<close>

text \<open>
  Claim C7 fails as stated: \<^verbatim>\<open>mount\<close> does not read \<^verbatim>\<open>maxRetryAttempts\<close> or \<^verbatim>\<open>retryDelayMs\<close>.
  A caller that supplies 7 attempts and a delay of 5 ms gets the configuration of the
  defaults, and a handler that rejects at once is still observed three times, 1000 ms
  apart.
\<close>

theorem retry_parameters_counterexample:
  "mountConfig [''maxRetryAttempts'' \<mapsto> 7, ''retryDelayMs'' \<mapsto> 5] = mountConfig Map.empty
   \<and> project (mountConfig [''maxRetryAttempts'' \<mapsto> 7, ''retryDelayMs'' \<mapsto> 5])
         (\<lambda>g. Returns (Rejects 0)) 0 ()
       = Some [(0, HandlerInvoked), (0, Subscribed), (0, RetryWarned HandlerError),
          (1000, Subscribed), (1000, RetryWarned HandlerError),
          (2000, Subscribed), (2000, RetryWarned HandlerError),
          (3000, Subscribed), (3000, FailureLogged), (3000, TaskCompleted)]"
  by (simp add: mountConfig_def orDefault_def project_def subscribeForRetryWhen.simps
        notifier.simps attempt_def timerMs_def retryDelay_def retryTake_def)

text \<open>
  Claim C7, as amended. \<^verbatim>\<open>mount\<close> reads three optional numbers, with the defaults
  \<open>maxConcurrency = 5\<close>, \<open>timeoutMs = 30000\<close> and \<open>batchTimeoutMs = 1000\<close>, and each supplied
  value replaces its default. Any other property of the argument is ignored: the retry
  count and the retry delay are the literals 3 and 1000.
\<close>

theorem mount_config_surface:
  "mountConfig Map.empty = \<lparr> maxConcurrency = 5, timeoutMs = 30000, batchTimeoutMs = 1000 \<rparr>
   \<and> maxConcurrency (mountConfig (p(''maxConcurrency'' \<mapsto> a))) = a
   \<and> timeoutMs (mountConfig (p(''timeoutMs'' \<mapsto> b))) = b
   \<and> batchTimeoutMs (mountConfig (p(''batchTimeoutMs'' \<mapsto> c))) = c
   \<and> (k \<notin> {''maxConcurrency'', ''timeoutMs'', ''batchTimeoutMs''} \<longrightarrow>
        mountConfig (p(k \<mapsto> v)) = mountConfig p)
   \<and> retryTake = 3 \<and> retryDelay = 1000"
  by (simp add: mountConfig_def orDefault_def retryTake_def retryDelay_def)

theorem mount_config_surface_witness:
  "''retryDelayMs'' \<notin> {''maxConcurrency'', ''timeoutMs'', ''batchTimeoutMs''}
   \<and> mountConfig ([''maxConcurrency'' \<mapsto> 2, ''timeoutMs'' \<mapsto> 50, ''batchTimeoutMs'' \<mapsto> 20]
                    (''retryDelayMs'' \<mapsto> 9))
       = mountConfig [''maxConcurrency'' \<mapsto> 2, ''timeoutMs'' \<mapsto> 50, ''batchTimeoutMs'' \<mapsto> 20]"
proof -
  have a: "''retryDelayMs'' \<notin> {''maxConcurrency'', ''timeoutMs'', ''batchTimeoutMs''}"
    by simp
  note t = mount_config_surface
    [of "[''maxConcurrency'' \<mapsto> 2, ''timeoutMs'' \<mapsto> 50, ''batchTimeoutMs'' \<mapsto> 20]"
        0 0 0 "''retryDelayMs''" 9]
  note u = t [THEN conjunct2, THEN conjunct2, THEN conjunct2, THEN conjunct2, THEN conjunct1]
  from a u [THEN mp, OF a] show ?thesis by (rule conjI)
qed

subsection \<open>Batches are never empty\<close>

lemmas reaction_defs =
  processMessage_def subjectNext_def mount_def bufferTimer_def streamError_def
  onDestroy_def subjectComplete_def unsubscribe_def

lemma filterNonEmpty_nonempty: "e \<in> set (filterNonEmpty i b) \<Longrightarrow> snd e \<noteq> []"
  by (auto simp: filterNonEmpty_def split: if_splits)

lemma flushOf_nonempty: "e \<in> set (flushOf ob) \<Longrightarrow> snd e \<noteq> []"
  by (auto simp: flushOf_def dest: filterNonEmpty_nonempty)

lemma step_nonempty: "e \<in> set (snd (snd (step ev st))) \<Longrightarrow> snd e \<noteq> []"
  by (cases ev)
     (auto simp: reaction_defs split: option.splits if_splits
           dest: filterNonEmpty_nonempty flushOf_nonempty)

lemma emitted_nonempty: "e \<in> set (emitted st evs) \<Longrightarrow> snd e \<noteq> []"
proof (induction evs arbitrary: st)
  case Nil
  then show ?case by simp
next
  case (Cons ev evs)
  obtain r st' out where s: "step ev st = (r, st', out)"
    by (cases "step ev st") auto
  from Cons.prems s have "e \<in> set out \<or> e \<in> set (emitted st' evs)"
    by auto
  then show ?case
  proof
    assume "e \<in> set out"
    with s step_nonempty [of e ev st] show ?thesis by simp
  next
    assume "e \<in> set (emitted st' evs)"
    then show ?thesis by (rule Cons.IH)
  qed
qed

lemma bufferTimer_twice:
  "snd (snd (bufferTimer i (fst (snd (bufferTimer i st))))) = []"
proof -
  have "concat (map flushOf (filter (\<lambda>ob. fst ob = i) (map (timerOf i) obs))) = []" for obs :: "(nat \<times> 'a pipeline) list"
    by (induction obs) (auto simp: timerOf_def flushOf_def filterNonEmpty_def)
  then show ?thesis by (simp add: bufferTimer_def)
qed

lemma runWindows_nonempty: "b \<in> set (runWindows T i tick st calls) \<Longrightarrow> snd b \<noteq> []"
proof (induction T i tick st calls rule: runWindows.induct)
  case (1 T i tick st)
  then obtain e where "e \<in> set (snd (snd (step (BufferTimer i) st)))" "snd b = snd e"
    by (auto simp: runWindows.simps stamp_def)
  then show ?case using step_nonempty by metis
next
  case (2 T i tick st t p s calls)
  show ?case
  proof (cases "t < tick")
    case True
    with 2 show ?thesis by (simp add: runWindows.simps)
  next
    case False
    with "2.prems" have "b \<in> set (stamp tick (snd (snd (bufferTimer i st))))
        \<or> b \<in> set (runWindows T i (tick + timerMs T) (fst (snd (bufferTimer i st))) ((t, p, s) # calls))"
      by (simp add: runWindows.simps)
    then show ?thesis
    proof
      assume "b \<in> set (stamp tick (snd (snd (bufferTimer i st))))"
      then obtain e where "e \<in> set (snd (snd (step (BufferTimer i) st)))" "snd b = snd e"
        by (auto simp: stamp_def)
      then show ?thesis using step_nonempty by metis
    next
      assume "b \<in> set (runWindows T i (tick + timerMs T) (fst (snd (bufferTimer i st))) ((t, p, s) # calls))"
      with "2.IH"(2) False show ?thesis by simp
    qed
  qed
qed

text \<open>
  Claim C8. Whatever the state and the events, every batch that reaches mergeMap is
  non-empty, in the untimed and in the timed run; and when the timer of a subscription
  fires twice with no submission in between, the second firing emits nothing.
\<close>

theorem emitted_batches_nonempty:
  "(\<forall>e \<in> set (emitted st evs). snd e \<noteq> [])
   \<and> (\<forall>b \<in> set (batchesOf p calls). snd b \<noteq> [])
   \<and> snd (snd (bufferTimer i (fst (snd (bufferTimer i st))))) = []"
  using emitted_nonempty runWindows_nonempty bufferTimer_twice
  unfolding batchesOf_def by blast

theorem emitted_batches_nonempty_witness:
  "(0, [(examplePayload 1, ())]) \<in> set (emitted exampleMounted [BufferTimer 0, BufferTimer 0])
   \<and> snd (0 :: nat, [(examplePayload 1, ())]) \<noteq> []
   \<and> (1000, [(examplePayload 1, ())]) \<in> set (batchesOf Map.empty [(3, examplePayload 1, ())])
   \<and> snd (snd (bufferTimer 0 (fst (snd (bufferTimer 0 exampleMounted))))) = []"
proof -
  have a: "(0, [(examplePayload 1, ())]) \<in> set (emitted exampleMounted [BufferTimer 0, BufferTimer 0])"
    by (simp add: exampleMounted_def reaction_defs initProcessor_def bufferNext_def
          timerOf_def flushOf_def filterNonEmpty_def)
  have b: "(1000, [(examplePayload 1, ())]) \<in> set (batchesOf Map.empty [(3, examplePayload 1, ())])"
    by (simp add: batchesOf_def runWindows.simps reaction_defs initProcessor_def bufferNext_def
          timerOf_def flushOf_def filterNonEmpty_def stamp_def mountConfig_def orDefault_def
          timerMs_def)
  from a b emitted_batches_nonempty [of exampleMounted "[BufferTimer 0, BufferTimer 0]"
      Map.empty "[(3, examplePayload 1, ())]" 0]
  show ?thesis by auto
qed

subsection \<open>After onDestroy\<close>

lemma emitted_no_observers:
  "observers st = [] \<Longrightarrow> isStopped st \<or> closed st \<Longrightarrow> emitted st evs = []"
proof (induction evs arbitrary: st)
  case Nil
  then show ?case by simp
next
  case (Cons ev evs)
  obtain r st' out where s: "step ev st = (r, st', out)"
    by (cases "step ev st") auto
  from Cons.prems s have "out = [] \<and> observers st' = [] \<and> (isStopped st' \<or> closed st')"
    by (cases ev)
       (auto simp: reaction_defs filterNonEmpty_def split: option.splits if_splits)
  with Cons.IH [of st'] s show ?case by simp
qed

lemma run_append: "run st (xs @ ys) = run (run st xs) ys"
  by (induction xs arbitrary: st) auto

lemma run_snoc: "run st (xs @ [e]) = fst (snd (step e (run st xs)))"
  by (simp add: run_append)

lemma reachable_inv:
  "\<not> closed (run initProcessor evs)
   \<and> (isStopped (run initProcessor evs) \<longrightarrow> observers (run initProcessor evs) = [])"
proof (induction evs rule: rev_induct)
  case Nil
  then show ?case by (simp add: initProcessor_def)
next
  case (snoc ev evs)
  then show ?case
    unfolding run_snoc
    by (cases ev) (auto simp: reaction_defs split: option.splits)
qed

lemma reachable_single:
  "length (filter isMount evs) \<le> 1 \<Longrightarrow>
   (if filter isMount evs = [] then observers (run initProcessor evs) = []
    else \<forall>ob \<in> set (observers (run initProcessor evs)).
           subscription (run initProcessor evs) = Some (fst ob))"
proof (induction evs rule: rev_induct)
  case Nil
  then show ?case by (simp add: initProcessor_def)
next
  case (snoc ev evs)
  show ?case
  proof (cases ev)
    case (Mount p)
    with snoc.prems have "filter isMount evs = []" by simp
    with snoc.IH have "observers (run initProcessor evs) = []" by simp
    with Mount show ?thesis
      unfolding run_snoc by (simp add: reaction_defs)
  next
    case (ProcessMessage p s)
    with snoc show ?thesis
      unfolding run_snoc by (auto simp: reaction_defs bufferNext_def)
  next
    case OnDestroy
    with snoc show ?thesis
      unfolding run_snoc by (auto simp: reaction_defs split: option.splits)
  next
    case (BufferTimer i)
    with snoc show ?thesis
      unfolding run_snoc by (auto simp: reaction_defs timerOf_def)
  next
    case (StreamError i)
    with snoc show ?thesis
      unfolding run_snoc by (auto simp: reaction_defs)
  qed
qed

lemma onDestroy_stops:
  "observers (run initProcessor (evs @ [OnDestroy])) = []
   \<and> isStopped (run initProcessor (evs @ [OnDestroy]))
   \<and> \<not> closed (run initProcessor (evs @ [OnDestroy]))"
  using reachable_inv [of evs] unfolding run_snoc
  by (auto simp: reaction_defs split: option.splits)

lemma onDestroy_single:
  assumes "length (filter isMount evs) \<le> 1"
  shows "snd (snd (onDestroy (run initProcessor evs))) = []"
proof (cases "filter isMount evs = []")
  case True
  with reachable_single [OF assms] reachable_inv [of evs] show ?thesis
    by (auto simp: reaction_defs split: option.splits)
next
  case False
  with reachable_single [OF assms]
  have a: "\<forall>ob \<in> set (observers (run initProcessor evs)).
           subscription (run initProcessor evs) = Some (fst ob)" by simp
  show ?thesis
  proof (cases "subscription (run initProcessor evs)")
    case None
    with a have "observers (run initProcessor evs) = []"
      by (cases "observers (run initProcessor evs)") auto
    with None reachable_inv [of evs] show ?thesis
      by (auto simp: reaction_defs)
  next
    case (Some i)
    with a have "filter (\<lambda>ob. fst ob \<noteq> i) (observers (run initProcessor evs)) = []"
      by (auto simp: filter_empty_conv)
    with Some show ?thesis
      by (simp add: reaction_defs)
  qed
qed

text \<open>
  Claim C3 fails as stated: a submission after \<^verbatim>\<open>onDestroy\<close> returns normally. On the
  example processor, destroyed with one group in its buffer, \<^verbatim>\<open>processMessage\<close> returns
  no error, leaves the state as it is and emits nothing.
\<close>

theorem submit_after_destroy_counterexample:
  "processMessage (examplePayload 2) () exampleDestroyed = (Inr (), exampleDestroyed, [])
   \<and> bufferRecord (snd (hd (observers exampleMounted))) = [(examplePayload 1, ())]"
  by (simp add: exampleDestroyed_def exampleMounted_def reaction_defs initProcessor_def
        bufferNext_def examplePayload_def)

text \<open>
  Claim C3, as amended. After any history that ends with \<^verbatim>\<open>onDestroy\<close>, a call of
  \<^verbatim>\<open>processMessage\<close> returns normally, changes nothing and emits nothing: the submission
  is dropped without a signal. No later event makes a batch reach mergeMap. And when
  \<^verbatim>\<open>mount\<close> was called at most once, \<^verbatim>\<open>onDestroy\<close> itself emits nothing: the groups still in
  the buffer are discarded.
\<close>

theorem destroy_drops_silently:
  "processMessage p s (run initProcessor (history @ [OnDestroy]))
     = (Inr (), run initProcessor (history @ [OnDestroy]), [])
   \<and> emitted (run initProcessor (history @ [OnDestroy])) evs = []
   \<and> (length (filter isMount history) \<le> 1 \<longrightarrow>
        snd (snd (onDestroy (run initProcessor history))) = [])"
  using onDestroy_stops [of history] onDestroy_single [of history]
  by (simp add: processMessage_def subjectNext_def emitted_no_observers)

theorem destroy_drops_silently_witness:
  "length (filter isMount [Mount Map.empty, ProcessMessage (examplePayload 1) ()]) \<le> 1
   \<and> processMessage (examplePayload 2) ()
        (run initProcessor ([Mount Map.empty, ProcessMessage (examplePayload 1) ()] @ [OnDestroy]))
      = (Inr (),
         run initProcessor ([Mount Map.empty, ProcessMessage (examplePayload 1) ()] @ [OnDestroy]),
         [])
   \<and> emitted
        (run initProcessor ([Mount Map.empty, ProcessMessage (examplePayload 1) ()] @ [OnDestroy]))
        [ProcessMessage (examplePayload 2) (), BufferTimer 0] = []
   \<and> snd (snd (onDestroy
        (run initProcessor [Mount Map.empty, ProcessMessage (examplePayload 1) ()]))) = []"
proof -
  have a: "length (filter isMount [Mount Map.empty, ProcessMessage (examplePayload 1) ()]) \<le> 1"
    by simp
  from a destroy_drops_silently [of "examplePayload 2" "()"
      "[Mount Map.empty, ProcessMessage (examplePayload 1) ()]"
      "[ProcessMessage (examplePayload 2) (), BufferTimer 0]"]
  show ?thesis by blast
qed

subsection \<open>After a stream error\<close>

text \<open>
  An error reaches the outer \<^verbatim>\<open>catchError\<close> when it is raised outside the chain built on
  one promise: by the project function itself (a handler that throws before it returns
  its promise, a value that \<^verbatim>\<open>from\<close> rejects; the state of the batch then has \<open>errored\<close> set)
  or by an operator of the outer chain.
\<close>

lemma fst_timerOf: "fst (timerOf i ob) = fst ob"
  by (simp add: timerOf_def)

lemma fst_bufferNext: "fst (bufferNext g ob) = fst ob"
  by (simp add: bufferNext_def)

lemma step_ids:
  "i < fresh st \<Longrightarrow> i \<notin> fst ` set (observers st) \<Longrightarrow>
   i < fresh (fst (snd (step ev st))) \<and> i \<notin> fst ` set (observers (fst (snd (step ev st))))"
proof (cases ev)
  case (Mount p)
  assume "i < fresh st" "i \<notin> fst ` set (observers st)"
  with Mount show ?thesis by (auto simp: reaction_defs)
next
  case (ProcessMessage p s)
  assume "i < fresh st" "i \<notin> fst ` set (observers st)"
  with ProcessMessage show ?thesis
    by (simp add: reaction_defs image_image fst_bufferNext)
next
  case OnDestroy
  assume "i < fresh st" "i \<notin> fst ` set (observers st)"
  with OnDestroy show ?thesis
    by (auto simp: reaction_defs split: option.splits)
next
  case (BufferTimer j)
  assume "i < fresh st" "i \<notin> fst ` set (observers st)"
  with BufferTimer show ?thesis
    by (simp add: reaction_defs image_image fst_timerOf)
next
  case (StreamError j)
  assume "i < fresh st" "i \<notin> fst ` set (observers st)"
  with StreamError show ?thesis
    by (auto simp: reaction_defs)
qed

lemma flushOf_id: "x \<in> set (flushOf ob) \<Longrightarrow> fst x = fst ob"
  by (auto simp: flushOf_def filterNonEmpty_def split: if_splits)

lemma step_out_ids:
  "x \<in> set (snd (snd (step ev st))) \<Longrightarrow> fst x \<in> fst ` set (observers st)"
  by (cases ev)
     (auto simp: reaction_defs filterNonEmpty_def split: option.splits if_splits
           dest!: flushOf_id)

lemma emitted_unsubscribed:
  "i < fresh st \<Longrightarrow> i \<notin> fst ` set (observers st) \<Longrightarrow> e \<in> set (emitted st evs) \<Longrightarrow> fst e \<noteq> i"
proof (induction evs arbitrary: st)
  case Nil
  then show ?case by simp
next
  case (Cons ev evs)
  obtain r st' out where s: "step ev st = (r, st', out)"
    by (cases "step ev st") auto
  from Cons.prems(3) s have "e \<in> set out \<or> e \<in> set (emitted st' evs)" by auto
  then show ?case
  proof
    assume "e \<in> set out"
    with s step_out_ids [of e ev st] Cons.prems(2) show ?thesis by auto
  next
    assume "e \<in> set (emitted st' evs)"
    with Cons.IH [of st'] step_ids [OF Cons.prems(1,2), of ev] s show ?thesis by simp
  qed
qed

lemma emitted_no_mount:
  "observers st = [] \<Longrightarrow> \<forall>e \<in> set evs. \<not> isMount e \<Longrightarrow> emitted st evs = []"
proof (induction evs arbitrary: st)
  case Nil
  then show ?case by simp
next
  case (Cons ev evs)
  obtain r st' out where s: "step ev st = (r, st', out)"
    by (cases "step ev st") auto
  from Cons.prems s have "out = [] \<and> observers st' = []"
    by (cases ev) (auto simp: reaction_defs split: option.splits if_splits)
  with Cons.IH [of st'] Cons.prems(2) s show ?case by simp
qed

text \<open>
  Claim C9. When an error reaches the outer \<^verbatim>\<open>catchError\<close> of a subscription, that
  subscription never emits a batch again, whatever happens afterwards; and when it was
  the only live subscription and \<^verbatim>\<open>mount\<close> is not called again, no batch is emitted at all:
  nothing restarts the chain.
\<close>

theorem stream_error_halts:
  "(i < fresh st \<longrightarrow> (\<forall>e \<in> set (emitted (fst (snd (streamError i st))) evs). fst e \<noteq> i))
   \<and> ((\<forall>ob \<in> set (observers st). fst ob = i) \<and> (\<forall>e \<in> set evs. \<not> isMount e) \<longrightarrow>
        emitted (fst (snd (streamError i st))) evs = [])"
proof (intro conjI impI)
  assume "i < fresh st"
  then have "i < fresh (fst (snd (streamError i st)))"
    and "i \<notin> fst ` set (observers (fst (snd (streamError i st))))"
    by (auto simp: reaction_defs)
  then show "\<forall>e \<in> set (emitted (fst (snd (streamError i st))) evs). fst e \<noteq> i"
    using emitted_unsubscribed by blast
next
  assume a: "(\<forall>ob \<in> set (observers st). fst ob = i) \<and> (\<forall>e \<in> set evs. \<not> isMount e)"
  then have "observers (fst (snd (streamError i st))) = []"
    by (auto simp: reaction_defs filter_empty_conv)
  with a show "emitted (fst (snd (streamError i st))) evs = []"
    by (simp add: emitted_no_mount)
qed

theorem stream_error_halts_witness:
  "0 < fresh exampleMounted
   \<and> map fst (observers exampleMounted) = [0]
   \<and> filter isMount [ProcessMessage (examplePayload 2) (), BufferTimer 0] = []
   \<and> emitted (fst (snd (streamError 0 exampleMounted)))
        [ProcessMessage (examplePayload 2) (), BufferTimer 0] = []"
proof -
  have a: "0 < fresh exampleMounted"
    by (simp add: exampleMounted_def reaction_defs initProcessor_def)
  have b: "map fst (observers exampleMounted) = [0]"
    by (simp add: exampleMounted_def reaction_defs initProcessor_def bufferNext_def)
  have b': "\<forall>ob \<in> set (observers exampleMounted). fst ob = 0"
    by (simp add: exampleMounted_def reaction_defs initProcessor_def bufferNext_def)
  have c: "filter isMount [ProcessMessage (examplePayload 2) (), BufferTimer 0] = []"
    by simp
  have c': "\<forall>e \<in> set [ProcessMessage (examplePayload 2) (), BufferTimer 0]. \<not> isMount e"
    by simp
  note t = stream_error_halts [of 0 exampleMounted
      "[ProcessMessage (examplePayload 2) (), BufferTimer 0]"]
  from t [THEN conjunct2, THEN mp, OF conjI [OF b' c']] a b c
  show ?thesis by simp
qed

subsection \<open>Before mount\<close>

text \<open>
  Claim C10. On a processor on which \<^verbatim>\<open>mount\<close> has not been called, \<^verbatim>\<open>processMessage\<close>
  returns normally and leaves the state unchanged, so whatever follows (a later \<^verbatim>\<open>mount\<close>
  included) emits exactly what it would have emitted without the call.
\<close>

theorem unmounted_submission_dropped:
  "processMessage p s initProcessor = (Inr (), initProcessor, [])
   \<and> emitted initProcessor (ProcessMessage p s # evs) = emitted initProcessor evs"
  by (simp add: processMessage_def subjectNext_def initProcessor_def)

theorem unmounted_submission_dropped_witness:
  "emitted initProcessor
     [ProcessMessage (examplePayload 1) (), Mount Map.empty, BufferTimer 0] = []
   \<and> emitted initProcessor
     [Mount Map.empty, ProcessMessage (examplePayload 1) (), BufferTimer 0]
       = [(0, [(examplePayload 1, ())])]"
proof -
  have "emitted initProcessor [Mount Map.empty, BufferTimer 0]
      = ([] :: (nat, unit) group emissions)"
    by (simp add: reaction_defs initProcessor_def timerOf_def flushOf_def filterNonEmpty_def)
  moreover have "emitted initProcessor
     [Mount Map.empty, ProcessMessage (examplePayload 1) (), BufferTimer 0]
       = [(0, [(examplePayload 1, ())])]"
    by (simp add: reaction_defs initProcessor_def timerOf_def flushOf_def filterNonEmpty_def
          bufferNext_def)
  ultimately show ?thesis
    using unmounted_submission_dropped [of "examplePayload 1" "()" "[Mount Map.empty, BufferTimer 0]"]
    by simp
qed

section \<open>Properties of one task\<close>

text \<open>
  The trace of a task holds one call of the handler, whatever the promise does: neither
  a subscription nor the notifier calls it.
\<close>

lemma retry_no_invocation:
  "invocations (subscribeForRetryWhen cfg s pr seen a) = 0"
  "invocations (notifier cfg s pr seen e) = 0"
proof (induction cfg s pr seen a and cfg s pr seen e
       rule: subscribeForRetryWhen_notifier.induct)
  case (1 cfg s pr seen a)
  obtain t r where at: "attempt (timeoutMs cfg) s pr a = (t, r)"
    by (cases "attempt (timeoutMs cfg) s pr a") auto
  show ?case
  proof (cases r)
    case Delivered
    with at show ?thesis
      by (simp add: subscribeForRetryWhen.simps [of cfg s pr seen a] invocations_def)
  next
    case (Failed f)
    from "1.IH" [OF at [symmetric] Failed] at Failed show ?thesis
      by (simp add: subscribeForRetryWhen.simps [of cfg s pr seen a] invocations_def)
  next
    case FailedNull
    with at show ?thesis
      by (simp add: subscribeForRetryWhen.simps [of cfg s pr seen a] invocations_def)
  qed
next
  case (2 cfg s pr seen e)
  show ?case
  proof (cases "Suc seen \<le> retryTake \<and> \<not> retryTake \<le> Suc seen")
    case True
    with "2.IH" [OF refl] show ?thesis
      by (simp add: notifier.simps [of cfg s pr seen e] Let_def)
  next
    case False
    then show ?thesis
      by (auto simp: notifier.simps [of cfg s pr seen e] Let_def invocations_def)
  qed
qed

lemma project_invoked_once: "project cfg h s g = Some tr \<Longrightarrow> invocations tr = 1"
proof (cases "h g")
  case (Returns pr)
  assume "project cfg h s g = Some tr"
  with Returns retry_no_invocation(1) [of cfg s pr 0 s] show ?thesis
    by (auto simp: project_def invocations_def)
next
  case Throws
  assume "project cfg h s g = Some tr"
  with Throws show ?thesis by (simp add: project_def)
qed

lemmas run_defs =
  runBatch_def runMerge_def drain.simps innerComplete_def whileBuffered.simps outerNext_def
  doInnerSub_def initMerge_def project_def subscribeForRetryWhen.simps notifier.simps
  attempt_def finished_def timerMs_def retryDelay_def retryTake_def mountConfig_def
  orDefault_def abandon_def cutTrace_def

text \<open>
  Claim C2, evaluated on the code. With the default configuration and a handler whose
  promise rejects at once, the task of the only group of a batch emitted at time 0 sees
  the rejection three times, at 0, 1000 and 2000 ms, and logs its failure once, at
  3000 ms; the handler is called once, not three times: each retry subscribes again to
  \<^verbatim>\<open>from(promise)\<close> for the promise of the first call.
\<close>

theorem failing_handler_invoked_once:
  "map taskTrace (runBatch (mountConfig Map.empty) (\<lambda>g. Returns (Rejects 0)) 0 [()])
     = [[(0, HandlerInvoked), (0, Subscribed), (0, RetryWarned HandlerError),
         (1000, Subscribed), (1000, RetryWarned HandlerError),
         (2000, Subscribed), (2000, RetryWarned HandlerError),
         (3000, Subscribed), (3000, FailureLogged), (3000, TaskCompleted)]]
   \<and> map (\<lambda>x. invocations (taskTrace x))
        (runBatch (mountConfig Map.empty) (\<lambda>g. Returns (Rejects 0)) 0 [()]) = [1]"
  by (simp add: run_defs invocations_def)

text \<open>
  Claim C6. A subscription whose promise has not settled at the deadline ends there
  with a \<^verbatim>\<open>TimeoutError\<close>. Whatever the error of a subscription is (a \<^verbatim>\<open>TimeoutError\<close> or a
  rejection of the handler's promise with a reason whose message can be read), retryWhen
  hands it to the same notifier, whose reaction does not depend on the error: while
  fewer than three errors have been counted it waits the retry delay and subscribes
  again, and at the third it waits the retry delay, logs the failure and completes the
  task.
\<close>

theorem timeout_enters_retry_path:
  "(\<not> settledBy pr s (a + timerMs (timeoutMs cfg)) \<longrightarrow>
      attempt (timeoutMs cfg) s pr a = (a + timerMs (timeoutMs cfg), Failed TimeoutError))
   \<and> (attempt (timeoutMs cfg) s pr a = (t, Failed f) \<longrightarrow>
      subscribeForRetryWhen cfg s pr seen a
        = (a, Subscribed) # (t, RetryWarned f) # notifier cfg s pr seen t)
   \<and> (Suc seen < retryTake \<longrightarrow>
      notifier cfg s pr seen t = subscribeForRetryWhen cfg s pr (Suc seen) (t + timerMs retryDelay))
   \<and> (Suc seen = retryTake \<longrightarrow>
      notifier cfg s pr seen t
        = [(t + timerMs retryDelay, Subscribed), (t + timerMs retryDelay, FailureLogged),
           (t + timerMs retryDelay, TaskCompleted)])"
proof (intro conjI impI)
  assume "\<not> settledBy pr s (a + timerMs (timeoutMs cfg))"
  then show "attempt (timeoutMs cfg) s pr a = (a + timerMs (timeoutMs cfg), Failed TimeoutError)"
    by (cases pr) (simp_all add: attempt_def)
next
  assume "attempt (timeoutMs cfg) s pr a = (t, Failed f)"
  then show "subscribeForRetryWhen cfg s pr seen a
        = (a, Subscribed) # (t, RetryWarned f) # notifier cfg s pr seen t"
    by (simp add: subscribeForRetryWhen.simps [of cfg s pr seen a])
next
  assume "Suc seen < retryTake"
  then show "notifier cfg s pr seen t
      = subscribeForRetryWhen cfg s pr (Suc seen) (t + timerMs retryDelay)"
    by (simp add: notifier.simps [of cfg s pr seen t] Let_def)
next
  assume "Suc seen = retryTake"
  then show "notifier cfg s pr seen t
        = [(t + timerMs retryDelay, Subscribed), (t + timerMs retryDelay, FailureLogged),
           (t + timerMs retryDelay, TaskCompleted)]"
    by (simp add: notifier.simps [of cfg s pr seen t] Let_def)
qed

theorem timeout_enters_retry_path_witness:
  "\<not> settledBy NeverSettles 0 (0 + timerMs (timeoutMs (mountConfig Map.empty)))
   \<and> attempt (timeoutMs (mountConfig Map.empty)) 0 NeverSettles 0
       = (0 + timerMs (timeoutMs (mountConfig Map.empty)), Failed TimeoutError)
   \<and> project (mountConfig Map.empty) (\<lambda>g. Returns NeverSettles) 0 ()
       = Some [(0, HandlerInvoked), (0, Subscribed), (30000, RetryWarned TimeoutError),
          (31000, Subscribed), (61000, RetryWarned TimeoutError),
          (62000, Subscribed), (92000, RetryWarned TimeoutError),
          (93000, Subscribed), (93000, FailureLogged), (93000, TaskCompleted)]"
proof -
  have a: "\<not> settledBy NeverSettles 0 (0 + timerMs (timeoutMs (mountConfig Map.empty)))"
    by simp
  note t = timeout_enters_retry_path [of NeverSettles 0 0 "mountConfig Map.empty"]
  have b: "attempt (timeoutMs (mountConfig Map.empty)) 0 NeverSettles 0
       = (0 + timerMs (timeoutMs (mountConfig Map.empty)), Failed TimeoutError)"
    using t [THEN conjunct1, THEN mp, OF a] .
  have c: "project (mountConfig Map.empty) (\<lambda>g. Returns NeverSettles) 0 ()
       = Some [(0, HandlerInvoked), (0, Subscribed), (30000, RetryWarned TimeoutError),
          (31000, Subscribed), (61000, RetryWarned TimeoutError),
          (62000, Subscribed), (92000, RetryWarned TimeoutError),
          (93000, Subscribed), (93000, FailureLogged), (93000, TaskCompleted)]"
    by (simp add: run_defs)
  from a b c show ?thesis by (intro conjI)
qed

text \<open>
  A rejection with the reason \<^verbatim>\<open>null\<close>, 5 ms after the call: no warning and no retry; the
  inner \<^verbatim>\<open>catchError\<close> ends the task at once.
\<close>

lemma null_reason_example:
  "project (mountConfig Map.empty) (\<lambda>g. Returns (RejectsNull 5)) 0 ()
     = Some [(0, HandlerInvoked), (0, Subscribed), (5, ErrorLogged), (5, FailureLogged),
             (5, NullEmitted), (5, TaskCompleted)]"
  by (simp add: run_defs)

section \<open>Properties of the batches\<close>

subsection \<open>Two batches at the same time\<close>

lemmas window_defs =
  batchesOf_def runWindows.simps stamp_def processMessage_def subjectNext_def mount_def
  bufferTimer_def initProcessor_def bufferNext_def timerOf_def flushOf_def filterNonEmpty_def

lemma example_batches:
  "batchesOf [''maxConcurrency'' \<mapsto> 1] [(500, examplePayload 1, ()), (1500, examplePayload 2, ())]
     = [(1000, [(examplePayload 1, ())]), (2000, [(examplePayload 2, ())])]"
  by (simp add: window_defs mountConfig_def orDefault_def timerMs_def)

lemma example_first_batch:
  "runBatch (mountConfig [''maxConcurrency'' \<mapsto> 1]) (handlerOf (\<lambda>p s. Resolves 5000)) 1000
     [(examplePayload 1, ())]
   = [\<lparr> taskIndex = 0, taskGroup = (examplePayload 1, ()), started = 1000,
        taskTrace = [(1000, HandlerInvoked), (1000, Subscribed), (6000, ValueEmitted),
                     (6000, TaskCompleted)] \<rparr>]"
  by (simp add: run_defs handlerOf_def)

lemma example_second_batch:
  "runBatch (mountConfig [''maxConcurrency'' \<mapsto> 1]) (handlerOf (\<lambda>p s. Resolves 5000)) 2000
     [(examplePayload 2, ())]
   = [\<lparr> taskIndex = 0, taskGroup = (examplePayload 2, ()), started = 2000,
        taskTrace = [(2000, HandlerInvoked), (2000, Subscribed), (7000, ValueEmitted),
                     (7000, TaskCompleted)] \<rparr>]"
  by (simp add: run_defs handlerOf_def)

lemma example_tasks:
  "pipelineTasks [''maxConcurrency'' \<mapsto> 1] (\<lambda>p s. Resolves 5000)
           [(500, examplePayload 1, ()), (1500, examplePayload 2, ())]
   = [\<lparr> taskIndex = 0, taskGroup = (examplePayload 1, ()), started = 1000,
        taskTrace = [(1000, HandlerInvoked), (1000, Subscribed), (6000, ValueEmitted),
                     (6000, TaskCompleted)] \<rparr>,
      \<lparr> taskIndex = 0, taskGroup = (examplePayload 2, ()), started = 2000,
        taskTrace = [(2000, HandlerInvoked), (2000, Subscribed), (7000, ValueEmitted),
                     (7000, TaskCompleted)] \<rparr>]"
  unfolding pipelineTasks_def example_batches
  by (simp only: list.map concat.simps fst_conv snd_conv example_first_batch
        example_second_batch append.simps)

text \<open>
  Claim C1, evaluated on the code. With \<open>maxConcurrency = 1\<close>, a handler whose promise
  resolves after 5000 ms and two calls of \<^verbatim>\<open>processMessage\<close>, at 500 and at 1500 ms, the two
  groups fall into the batches of 1000 and of 2000 ms. The outer mergeMap subscribes to
  each batch at once and the limit is the argument of the inner mergeMap of each batch,
  so the second task starts at 2000 ms although the first runs until 6000 ms: at 2500 ms
  two handler calls are running, one more than \<open>maxConcurrency\<close>.
\<close>

theorem two_batches_exceed_max_concurrency:
  "maxConcurrency (mountConfig [''maxConcurrency'' \<mapsto> 1]) = 1
   \<and> map (\<lambda>x. (started x, finished x))
        (pipelineTasks [''maxConcurrency'' \<mapsto> 1] (\<lambda>p s. Resolves 5000)
           [(500, examplePayload 1, ()), (1500, examplePayload 2, ())])
      = [(1000, 6000), (2000, 7000)]
   \<and> executing (handlerOf (\<lambda>p s. Resolves 5000))
        (pipelineTasks [''maxConcurrency'' \<mapsto> 1] (\<lambda>p s. Resolves 5000)
           [(500, examplePayload 1, ()), (1500, examplePayload 2, ())]) 2500
      = 2"
  unfolding example_tasks
  by (simp add: executing_def handlerOf_def finished_def mountConfig_def orDefault_def)

subsection \<open>A handler that throws\<close>

text \<open>
  A handler whose promise rejects leaves the other tasks of its batch alone: the second
  group completes at 10 ms, the first when its retries end.
\<close>

lemma rejecting_handler_example:
  "map (\<lambda>x. (taskGroup x, started x, finished x))
     (runBatch (mountConfig Map.empty)
        (\<lambda>g. if g = 1 then Returns (Rejects 0) else Returns (Resolves 10)) 0 [1 :: nat, 2])
   = [(2, 0, 10), (1, 0, 3000)]"
  by (simp add: run_defs)

text \<open>
  Claim C4, evaluated on the code. A batch of two groups is emitted at time 0 with the
  default configuration; the handler throws, before it returns a promise, for group 1
  and returns a promise that resolves after 10 ms for group 2. With group 1 first, its
  call throws inside the project function, the stream fails at time 0, and group 2 is
  never handed to the handler: no task exists for it. With group 2 first, its handler is
  called, then the call for group 1 throws and the task of group 2 is torn down before
  its promise is delivered: it never completes.
\<close>

theorem throwing_handler_halts_batch:
  "runMerge (mountConfig Map.empty)
     (\<lambda>g. if g = 1 then Throws else Returns (Resolves 10)) 0 [1 :: nat, 2]
   = \<lparr> active = [], mergeBuffer = [], mergeIndex = 1, completed = [], abandoned = [],
       errored = Some 0 \<rparr>
   \<and> runBatch (mountConfig Map.empty)
        (\<lambda>g. if g = 1 then Throws else Returns (Resolves 10)) 0 [1 :: nat, 2] = []
   \<and> runMerge (mountConfig Map.empty)
        (\<lambda>g. if g = 1 then Throws else Returns (Resolves 10)) 0 [2 :: nat, 1]
      = \<lparr> active = [], mergeBuffer = [], mergeIndex = 2, completed = [],
          abandoned = [\<lparr> taskIndex = 0, taskGroup = 2, started = 0,
                         taskTrace = [(0, HandlerInvoked), (0, Subscribed)] \<rparr>],
          errored = Some 0 \<rparr>"
  by (simp add: run_defs)

text \<open>
  With two slots and three groups: the first rejects, the second resolves after 10 ms,
  the third throws. The third is started when the second completes; the stream fails
  then, and the first task is torn down in the middle of its retries.
\<close>

lemma abandon_example:
  "runMerge (mountConfig [''maxConcurrency'' \<mapsto> 2])
     (\<lambda>g. if g = 1 then Returns (Rejects 0) else if g = 2 then Returns (Resolves 10) else Throws)
     0 [1 :: nat, 2, 3]
   = \<lparr> active = [], mergeBuffer = [], mergeIndex = 3,
       completed = [\<lparr> taskIndex = 1, taskGroup = 2, started = 0,
                      taskTrace = [(0, HandlerInvoked), (0, Subscribed), (10, ValueEmitted),
                                   (10, TaskCompleted)] \<rparr>],
       abandoned = [\<lparr> taskIndex = 0, taskGroup = 1, started = 0,
                      taskTrace = [(0, HandlerInvoked), (0, Subscribed),
                                   (0, RetryWarned HandlerError), (10, FailureLogged)] \<rparr>],
       errored = Some 10 \<rparr>"
  by (simp add: run_defs)

section \<open>Properties of the windows\<close>

lemma single_processMessage:
  "processMessage p s (single i c buf) = (Inr (), single i c (buf @ [(p, s)]), [])"
  by (simp add: processMessage_def subjectNext_def single_def bufferNext_def)

lemma single_bufferTimer:
  "bufferTimer i (single i c buf) = (Inr (), single i c [], filterNonEmpty i buf)"
  by (simp add: bufferTimer_def single_def timerOf_def flushOf_def)

lemma single_mount: "mount p initProcessor = (Inr (), single 0 (mountConfig p) [], [])"
  by (simp add: mount_def initProcessor_def single_def)

lemma runWindows_Nil:
  "runWindows T i tick (single i c buf) [] = (if buf = [] then [] else [(tick, buf)])"
  by (simp add: runWindows.simps single_bufferTimer stamp_def filterNonEmpty_def)

lemma runWindows_early:
  "t < tick \<Longrightarrow> runWindows T i tick (single i c buf) ((t, p, s) # calls)
     = runWindows T i tick (single i c (buf @ [(p, s)])) calls"
  by (simp add: runWindows.simps single_processMessage)

lemma runWindows_late:
  "\<not> t < tick \<Longrightarrow> runWindows T i tick (single i c buf) ((t, p, s) # calls)
     = (if buf = [] then [] else [(tick, buf)])
       @ runWindows T i (tick + timerMs T) (single i c []) ((t, p, s) # calls)"
  by (simp add: runWindows.simps single_bufferTimer stamp_def filterNonEmpty_def)

lemma runWindows_some:
  "buf \<noteq> [] \<or> calls \<noteq> [] \<Longrightarrow> runWindows T i tick (single i c buf) calls \<noteq> []"
proof (induction T i tick "single i c buf :: ('a, 'b) group processor" calls arbitrary: buf
       rule: runWindows.induct)
  case (1 T i tick)
  then show ?case by (simp add: runWindows_Nil)
next
  case (2 T i tick t p s calls)
  show ?case
  proof (cases "t < tick")
    case True
    from "2.hyps"(1) [OF True, of "buf @ [(p, s)]"] True show ?thesis
      by (simp add: runWindows_early single_processMessage)
  next
    case False
    from "2.hyps"(2) [OF False, of "[]"] False show ?thesis
      by (simp add: runWindows_late single_bufferTimer)
  qed
qed

lemma runWindows_one_window:
  "list_all (\<lambda>c. hi \<le> fst c + timerMs T \<and> fst c < hi) calls \<Longrightarrow> hi = tick + m * timerMs T \<Longrightarrow>
    (buf \<noteq> [] \<longrightarrow> m = 0) \<Longrightarrow> buf \<noteq> [] \<or> calls \<noteq> [] \<Longrightarrow>
    runWindows T i tick (single i c buf) calls = [(hi, buf @ map snd calls)]"
proof (induction T i tick "single i c buf :: ('a, 'b) group processor" calls arbitrary: buf m
       rule: runWindows.induct)
  case (1 T i tick)
  then show ?case by (simp add: runWindows_Nil)
next
  case (2 T i tick t p s calls)
  from "2.prems"(1) have lo: "hi \<le> t + timerMs T" and up: "t < hi"
    and rest: "list_all (\<lambda>c. hi \<le> fst c + timerMs T \<and> fst c < hi) calls"
    by simp_all
  show ?case
  proof (cases "t < tick")
    case True
    have "m = 0"
    proof (rule ccontr)
      assume "m \<noteq> 0"
      then obtain n where "m = Suc n" by (cases m) auto
      with "2.prems"(2) have "tick + timerMs T \<le> hi" by simp
      with True lo show False by simp
    qed
    with "2.prems"(2) have h0: "hi = tick + 0 * timerMs T" by simp
    have st: "fst (snd (processMessage p s (single i c buf))) = single i c (buf @ [(p, s)])"
      by (simp add: single_processMessage)
    have nb: "buf @ [(p, s)] \<noteq> [] \<longrightarrow> (0 :: nat) = 0" by simp
    have ne: "buf @ [(p, s)] \<noteq> [] \<or> calls \<noteq> []" by simp
    from "2.hyps"(1) [OF True st rest h0 nb ne] True
    show ?thesis by (simp add: runWindows_early)
  next
    case False
    with up have "tick < hi" by simp
    with "2.prems"(2) obtain n where m: "m = Suc n" by (cases m) auto
    with "2.prems"(3) have b: "buf = []" by auto
    from m "2.prems"(2) have h1: "hi = (tick + timerMs T) + n * timerMs T" by simp
    have st: "fst (snd (bufferTimer i (single i c buf))) = single i c []"
      by (simp add: single_bufferTimer)
    have nb: "([] :: ('a, 'b) group list) \<noteq> [] \<longrightarrow> n = 0" by simp
    have ne: "([] :: ('a, 'b) group list) \<noteq> [] \<or> (t, p, s) # calls \<noteq> []" by simp
    from "2.hyps"(2) [OF False st "2.prems"(1) h1 nb ne] False b
    show ?thesis by (simp add: runWindows_late)
  qed
qed

lemma runWindows_gap:
  "sorted (map fst calls) \<Longrightarrow> hasGap (timerMs T) (map fst calls) \<Longrightarrow>
    (calls \<noteq> [] \<longrightarrow> tick \<le> fst (hd calls) + timerMs T) \<Longrightarrow>
    2 \<le> length (runWindows T i tick (single i c buf) calls)"
proof (induction T i tick "single i c buf :: ('a, 'b) group processor" calls arbitrary: buf
       rule: runWindows.induct)
  case (1 T i tick)
  then show ?case by simp
next
  case (2 T i tick t p s calls)
  from "2.prems"(3) have tk: "tick \<le> t + timerMs T" by simp
  show ?case
  proof (cases "t < tick")
    case True
    show ?thesis
    proof (cases calls)
      case Nil
      with "2.prems"(2) show ?thesis by simp
    next
      case (Cons c2 rest)
      obtain t2 p2 s2 where c2: "c2 = (t2, p2, s2)" by (cases c2) auto
      from "2.prems"(1) Cons c2 have le: "t \<le> t2" and srt: "sorted (map fst calls)"
        by simp_all
      show ?thesis
      proof (cases "hasGap (timerMs T) (map fst calls)")
        case g: True
        from tk le Cons c2 have inv: "calls \<noteq> [] \<longrightarrow> tick \<le> fst (hd calls) + timerMs T" by simp
        have st: "fst (snd (processMessage p s (single i c buf))) = single i c (buf @ [(p, s)])"
          by (simp add: single_processMessage)
        from "2.hyps"(1) [OF True st srt g inv] True show ?thesis
          by (simp add: runWindows_early)
      next
        case False
        with "2.prems"(2) Cons c2 have "t + timerMs T < t2" by simp
        with tk have late: "\<not> t2 < tick" by simp
        have "runWindows T i (tick + timerMs T) (single i c []) ((t2, p2, s2) # rest) \<noteq> []"
          by (rule runWindows_some) simp
        then have "1 \<le> length (runWindows T i (tick + timerMs T) (single i c []) ((t2, p2, s2) # rest))"
          by (cases "runWindows T i (tick + timerMs T) (single i c []) ((t2, p2, s2) # rest)") simp_all
        with True Cons c2 runWindows_late [OF late, of T i c "buf @ [(p, s)]" p2 s2 rest]
        show ?thesis by (simp add: runWindows_early)
      qed
    qed
  next
    case False
    from False have inv: "(t, p, s) # calls \<noteq> [] \<longrightarrow>
        tick + timerMs T \<le> fst (hd ((t, p, s) # calls)) + timerMs T" by simp
    have st: "fst (snd (bufferTimer i (single i c buf))) = single i c []"
      by (simp add: single_bufferTimer)
    from "2.hyps"(2) [OF False st "2.prems"(1,2) inv] False show ?thesis
      by (simp add: runWindows_late)
  qed
qed

lemma batchesOf_single:
  "batchesOf p calls =
     runWindows (batchTimeoutMs (mountConfig p)) 0 (timerMs (batchTimeoutMs (mountConfig p)))
       (single 0 (mountConfig p) []) calls"
  unfolding batchesOf_def single_mount by (simp add: initProcessor_def)

lemma timerMs_pos: "0 < timerMs d"
  by (simp add: timerMs_def)

lemma window_index: "0 < W \<Longrightarrow> (t div W = k) = (k * W \<le> t \<and> t < Suc k * W)"
  for t W k :: nat
  using less_eq_div_iff_mult_less_eq [of W k t] div_less_iff_less_mult [of W t "Suc k"] by auto

lemma runWindows_times:
  "tick = Suc j * timerMs T \<Longrightarrow> e \<in> set (runWindows T i tick (single i c buf) calls) \<Longrightarrow>
   \<exists>k. fst e = Suc k * timerMs T"
proof (induction T i tick "single i c buf :: ('a, 'b) group processor" calls arbitrary: buf j
       rule: runWindows.induct)
  case (1 T i tick)
  then show ?case by (auto simp: runWindows_Nil split: if_splits)
next
  case (2 T i tick t p s calls)
  show ?case
  proof (cases "t < tick")
    case True
    have st: "fst (snd (processMessage p s (single i c buf))) = single i c (buf @ [(p, s)])"
      by (simp add: single_processMessage)
    from "2.prems"(2) True
    have "e \<in> set (runWindows T i tick (single i c (buf @ [(p, s)])) calls)"
      by (simp add: runWindows_early)
    from "2.hyps"(1) [OF True st "2.prems"(1) this] show ?thesis .
  next
    case False
    have st: "fst (snd (bufferTimer i (single i c buf))) = single i c []"
      by (simp add: single_bufferTimer)
    have tk: "tick + timerMs T = Suc (Suc j) * timerMs T"
      using "2.prems"(1) by simp
    from "2.prems"(2) False
    have "e \<in> set (if buf = [] then [] else [(tick, buf)])
        \<or> e \<in> set (runWindows T i (tick + timerMs T) (single i c []) ((t, p, s) # calls))"
      by (simp add: runWindows_late)
    then show ?thesis
    proof
      assume "e \<in> set (if buf = [] then [] else [(tick, buf)])"
      with "2.prems"(1) show ?thesis by (auto split: if_splits)
    next
      assume "e \<in> set (runWindows T i (tick + timerMs T) (single i c []) ((t, p, s) # calls))"
      from "2.hyps"(2) [OF False st tk this] show ?thesis .
    qed
  qed
qed

lemma window_above:
  assumes "0 < W" "list_all (\<lambda>c. Suc j * W \<le> fst c) calls"
  shows "filter (\<lambda>c. fst c div W = j) calls = []"
proof -
  have "fst c div W \<noteq> j" if "c \<in> set calls" for c
  proof -
    from that assms(2) have "Suc j * W \<le> fst c" by (simp add: list_all_iff)
    with window_index [OF assms(1), of "fst c" j] show ?thesis by auto
  qed
  then show ?thesis by (simp add: filter_empty_conv)
qed

lemma runWindows_windows:
  "sorted (map fst calls) \<Longrightarrow> list_all (\<lambda>c. j * timerMs T \<le> fst c) calls \<Longrightarrow>
   tick = Suc j * timerMs T \<Longrightarrow>
   filter (\<lambda>e. fst e = Suc k * timerMs T) (runWindows T i tick (single i c buf) calls)
     = (if (if k = j then buf else []) @ map snd (filter (\<lambda>c. fst c div timerMs T = k) calls) = []
        then []
        else [(Suc k * timerMs T,
               (if k = j then buf else []) @ map snd (filter (\<lambda>c. fst c div timerMs T = k) calls))])"
proof (induction T i tick "single i c buf :: ('a, 'b) group processor" calls arbitrary: buf j
       rule: runWindows.induct)
  case (1 T i tick)
  have "Suc j * timerMs T = Suc k * timerMs T \<longleftrightarrow> j = k"
    using timerMs_pos [of T] by simp
  with "1.prems"(3) show ?case
    by (auto simp: runWindows_Nil)
next
  case (2 T i tick t p s calls)
  have pos: "0 < timerMs T" by (rule timerMs_pos)
  from "2.prems"(1) have srt: "sorted (map fst calls)"
    and ge: "list_all (\<lambda>c. t \<le> fst c) calls"
    by (simp_all add: list_all_iff)
  from "2.prems"(2) have lo: "j * timerMs T \<le> t"
    and los: "list_all (\<lambda>c. j * timerMs T \<le> fst c) calls"
    by simp_all
  show ?case
  proof (cases "t < tick")
    case True
    with "2.prems"(3) lo window_index [OF pos, of t j] have w: "t div timerMs T = j" by simp
    have st: "fst (snd (processMessage p s (single i c buf))) = single i c (buf @ [(p, s)])"
      by (simp add: single_processMessage)
    from "2.hyps"(1) [OF True st srt los "2.prems"(3)] True w show ?thesis
      by (simp add: runWindows_early)
  next
    case False
    have st: "fst (snd (bufferTimer i (single i c buf))) = single i c []"
      by (simp add: single_bufferTimer)
    have tk: "tick + timerMs T = Suc (Suc j) * timerMs T"
      using "2.prems"(3) by simp
    from False "2.prems"(3) have hi: "Suc j * timerMs T \<le> t" by simp
    with ge have his: "list_all (\<lambda>c. Suc j * timerMs T \<le> fst c) ((t, p, s) # calls)"
      by (auto simp: list_all_iff)
    have none: "filter (\<lambda>c. fst c div timerMs T = j) ((t, p, s) # calls) = []"
      using window_above [OF pos his] .
    have neq: "Suc j * timerMs T = Suc k * timerMs T \<longleftrightarrow> j = k"
      using pos by simp
    note ih = "2.hyps"(2) [OF False st "2.prems"(1) his tk]
    show ?thesis
    proof (cases "k = j")
      case True
      with ih none have "filter (\<lambda>e. fst e = Suc k * timerMs T)
          (runWindows T i (tick + timerMs T) (single i c []) ((t, p, s) # calls)) = []"
        by simp
      with True none False "2.prems"(3) show ?thesis
        by (simp add: runWindows_late)
    next
      case k: False
      with neq "2.prems"(3) have "tick \<noteq> Suc k * timerMs T" by auto
      with k ih False show ?thesis
        by (simp add: runWindows_late)
    qed
  qed
qed

text \<open>
  Claim C5 fails as stated: gaps smaller than the window do not keep the groups in one
  batch. With the default window of 1000 ms, calls at 900 and 1100 ms are 200 ms apart
  and fall into two batches, since the timer of bufferTime fires at 1000 ms.
\<close>

theorem rolling_gap_counterexample:
  "gapsBelow (batchTimeoutMs (mountConfig Map.empty)) (map fst [(900, examplePayload 1, ()), (1100, examplePayload 2, ())])
   \<and> batchesOf Map.empty [(900, examplePayload 1, ()), (1100, examplePayload 2, ())]
       = [(1000, [(examplePayload 1, ())]), (2000, [(examplePayload 2, ())])]"
  by (simp add: window_defs mountConfig_def orDefault_def timerMs_def)

text \<open>
  Claim C5, as amended. The windows are counted from the call of \<^verbatim>\<open>mount\<close>; window \<open>k\<close> runs
  from \<open>k\<close> window lengths after the mount to less than \<open>k + 1\<close>. When all calls fall into
  the same window, their groups form one single batch, in the order of the calls,
  emitted at the end of that window. When the calls are in order of time and one comes
  more than a window length after the call before it, at least two batches are
  emitted. In general, for calls in order of time: at the end of window \<open>k\<close> nothing is
  emitted when no call fell into it, and otherwise exactly one batch, which holds the
  groups of exactly the calls of window \<open>k\<close>, in their order; and every batch is emitted at
  the end of a window. So two groups share a batch exactly when their calls fall into
  the same window.
\<close>

theorem batch_formation:
  "(calls \<noteq> []
      \<and> list_all (\<lambda>c. k * timerMs (batchTimeoutMs (mountConfig p)) \<le> fst c
                      \<and> fst c < Suc k * timerMs (batchTimeoutMs (mountConfig p))) calls
    \<longrightarrow> batchesOf p calls = [(Suc k * timerMs (batchTimeoutMs (mountConfig p)), map snd calls)])
   \<and> (sorted (map fst calls) \<and> hasGap (timerMs (batchTimeoutMs (mountConfig p))) (map fst calls)
    \<longrightarrow> 2 \<le> length (batchesOf p calls))
   \<and> (sorted (map fst calls)
    \<longrightarrow> filter (\<lambda>e. fst e = Suc k * timerMs (batchTimeoutMs (mountConfig p))) (batchesOf p calls)
        = (if filter (\<lambda>c. fst c div timerMs (batchTimeoutMs (mountConfig p)) = k) calls = []
           then []
           else [(Suc k * timerMs (batchTimeoutMs (mountConfig p)),
                  map snd (filter (\<lambda>c. fst c div timerMs (batchTimeoutMs (mountConfig p)) = k)
                             calls))]))
   \<and> list_all (\<lambda>e. \<exists>n. fst e = Suc n * timerMs (batchTimeoutMs (mountConfig p)))
        (batchesOf p calls)"
proof (intro conjI impI)
  let ?T = "batchTimeoutMs (mountConfig p)"
  let ?W = "timerMs ?T"
  assume a: "calls \<noteq> [] \<and> list_all (\<lambda>c. k * ?W \<le> fst c \<and> fst c < Suc k * ?W) calls"
  then have w: "list_all (\<lambda>c. Suc k * ?W \<le> fst c + ?W \<and> fst c < Suc k * ?W) calls"
    by (auto simp: list_all_iff)
  have h: "Suc k * ?W = ?W + k * ?W" by simp
  have b: "([] :: ('a, 'b) group list) \<noteq> [] \<longrightarrow> k = 0" by simp
  from a have n: "([] :: ('a, 'b) group list) \<noteq> [] \<or> calls \<noteq> []" by simp
  from runWindows_one_window [OF w h b n, of 0 "mountConfig p"]
  show "batchesOf p calls = [(Suc k * ?W, map snd calls)]"
    by (simp add: batchesOf_single)
next
  let ?T = "batchTimeoutMs (mountConfig p)"
  let ?W = "timerMs ?T"
  assume a: "sorted (map fst calls) \<and> hasGap ?W (map fst calls)"
  have "calls \<noteq> [] \<longrightarrow> ?W \<le> fst (hd calls) + ?W" by simp
  from runWindows_gap [OF conjunct1 [OF a] conjunct2 [OF a] this, of 0 "mountConfig p" "[]"]
  show "2 \<le> length (batchesOf p calls)"
    by (simp add: batchesOf_single)
next
  let ?T = "batchTimeoutMs (mountConfig p)"
  let ?W = "timerMs ?T"
  assume a: "sorted (map fst calls)"
  have lo: "list_all (\<lambda>c. 0 * ?W \<le> fst c) calls" by (simp add: list_all_iff)
  have tk: "?W = Suc 0 * ?W" by simp
  from runWindows_windows [OF a lo tk, of k 0 "mountConfig p" "[]"]
  show "filter (\<lambda>e. fst e = Suc k * ?W) (batchesOf p calls)
        = (if filter (\<lambda>c. fst c div ?W = k) calls = [] then []
           else [(Suc k * ?W, map snd (filter (\<lambda>c. fst c div ?W = k) calls))])"
    by (simp add: batchesOf_single)
next
  let ?T = "batchTimeoutMs (mountConfig p)"
  let ?W = "timerMs ?T"
  have tk: "?W = Suc 0 * ?W" by simp
  show "list_all (\<lambda>e. \<exists>n. fst e = Suc n * ?W) (batchesOf p calls)"
    unfolding list_all_iff batchesOf_single
    using runWindows_times [OF tk] by blast
qed

theorem batch_formation_witness:
  "list_all (\<lambda>c. 1 * timerMs (batchTimeoutMs (mountConfig Map.empty)) \<le> fst c
                      \<and> fst c < Suc 1 * timerMs (batchTimeoutMs (mountConfig Map.empty)))
      [(1200, examplePayload 1, ()), (1900, examplePayload 2, ())]
   \<and> batchesOf Map.empty [(1200, examplePayload 1, ()), (1900, examplePayload 2, ())]
       = [(2000, [(examplePayload 1, ()), (examplePayload 2, ())])]
   \<and> sorted (map fst [(100 :: nat, examplePayload 1, ()), (1500, examplePayload 2, ())])
   \<and> hasGap (timerMs (batchTimeoutMs (mountConfig Map.empty)))
        (map fst [(100 :: nat, examplePayload 1, ()), (1500, examplePayload 2, ())])
   \<and> 2 \<le> length (batchesOf Map.empty [(100, examplePayload 1, ()), (1500, examplePayload 2, ())])
   \<and> sorted (map fst [(100 :: nat, examplePayload 1, ()), (900, examplePayload 2, ()),
                       (1100, examplePayload 3, ())])
   \<and> filter (\<lambda>e. fst e = 1000)
        (batchesOf Map.empty [(100, examplePayload 1, ()), (900, examplePayload 2, ()),
                              (1100, examplePayload 3, ())])
       = [(1000, [(examplePayload 1, ()), (examplePayload 2, ())])]
   \<and> filter (\<lambda>e. fst e = 2000)
        (batchesOf Map.empty [(100, examplePayload 1, ()), (900, examplePayload 2, ()),
                              (1100, examplePayload 3, ())])
       = [(2000, [(examplePayload 3, ())])]"
proof -
  let ?W = "timerMs (batchTimeoutMs (mountConfig Map.empty))"
  let ?one = "[(1200 :: nat, examplePayload 1, ()), (1900, examplePayload 2, ())]"
  let ?two = "[(100 :: nat, examplePayload 1, ()), (1500, examplePayload 2, ())]"
  let ?three = "[(100 :: nat, examplePayload 1, ()), (900, examplePayload 2, ()),
                 (1100, examplePayload 3, ())]"
  have w: "?W = 1000" by (simp add: mountConfig_def orDefault_def timerMs_def)
  have a: "list_all (\<lambda>c. 1 * ?W \<le> fst c \<and> fst c < Suc 1 * ?W) ?one"
    unfolding w by simp
  have n: "?one \<noteq> []" by simp
  have b: "sorted (map fst ?two)" by simp
  have c: "hasGap ?W (map fst ?two)" unfolding w by simp
  have d: "sorted (map fst ?three)" by simp
  note t1 = batch_formation [of ?one 1 Map.empty, THEN conjunct1, THEN mp, OF conjI [OF n a]]
  note t2 = batch_formation [of ?two 0 Map.empty, THEN conjunct2, THEN conjunct1, THEN mp,
      OF conjI [OF b c]]
  note t3 = batch_formation [of ?three 0 Map.empty, THEN conjunct2, THEN conjunct2,
      THEN conjunct1, THEN mp, OF d]
  note t4 = batch_formation [of ?three 1 Map.empty, THEN conjunct2, THEN conjunct2,
      THEN conjunct1, THEN mp, OF d]
  have e: "batchesOf Map.empty ?one = [(2000, [(examplePayload 1, ()), (examplePayload 2, ())])]"
    using t1 unfolding w by simp
  have f: "filter (\<lambda>e. fst e = 1000) (batchesOf Map.empty ?three)
       = [(1000, [(examplePayload 1, ()), (examplePayload 2, ())])]"
    using t3 unfolding w by simp
  have g: "filter (\<lambda>e. fst e = 2000) (batchesOf Map.empty ?three)
       = [(2000, [(examplePayload 3, ())])]"
    using t4 unfolding w by simp
  from a e b c t2 d f g show ?thesis by (intro conjI)
qed

end
